theory Spec2Isabelle
  imports Main "HOL-Library.Multiset"
begin

section \<open>The node graph of brewery/flow/graph.py\<close>

subsection \<open>Data model\<close>

text \<open>
  A node is an opaque Python object. The graph only compares nodes with \<open>==\<close>, hashes
  them and tests their truth value; a node object is truthy and is never a string.
  An outlet is \<open>None\<close> or an identifier.
\<close>

datatype node = Node nat

type_synonym outlet = "string option"

text \<open>\<open>Connection = namedtuple("Connection", [source, target, source_outlet, target_outlet])\<close>\<close>

record connection =
  source :: node
  target :: node
  source_outlet :: outlet
  target_outlet :: outlet

text \<open>
  The attributes of a \<open>Graph\<close>: \<open>nodes\<close> is an \<open>OrderedDict\<close> from names to nodes, kept
  as an association list in insertion order; \<open>connections\<close> is a Python \<open>set\<close>, kept as
  a list without repetitions (the list order stands for the iteration order of the
  set, which Python leaves unspecified); \<open>name_sequence\<close> is \<open>_name_sequence\<close>.
\<close>

record graph =
  nodes :: "(string \<times> node) list"
  connections :: "connection list"
  name_sequence :: nat

text \<open>
  Arguments that may be "a node or a node name": \<open>Name s\<close> is a string,
  \<open>Handle n\<close> a node object.
\<close>

datatype reference = Name string | Handle node

text \<open>
  The exceptions the methods raise. \<open>NameError\<close> is what \<open>raise StreamError(...)\<close>
  gives: the module never imports or defines \<open>StreamError\<close>.
  \<open>CycleException left total\<close> is the
  \<open>Exception("Steram has at least one cycle (%d connections left of %d)")\<close> of
  \<open>sorted_nodes\<close>.
\<close>

datatype error =
  KeyError | ValueError | TypeError | NameError | RuntimeError
  | CycleException nat nat

text \<open>\<open>Graph()\<close>: no nodes, no connections, the name counter at 1.\<close>

definition empty_graph :: graph where
  "empty_graph = \<lparr>nodes = [], connections = [], name_sequence = 1\<rparr>"

text \<open>
  The state a graph built through its methods is in: the dictionary has one entry per
  name, no node is registered twice (\<open>add\<close> refuses it), the connection set has no
  repetition, and connections join registered nodes (\<open>connect\<close> resolves both ends,
  \<open>remove\<close> deletes the connections of the node it deletes).
\<close>

definition wf_graph :: "graph \<Rightarrow> bool" where
  "wf_graph g \<longleftrightarrow>
     distinct (map fst (nodes g)) \<and>
     distinct (map snd (nodes g)) \<and>
     distinct (connections g) \<and>
     (\<forall>c \<in> set (connections g).
        source c \<in> set (map snd (nodes g)) \<and> target c \<in> set (map snd (nodes g)))"

subsection \<open>Node names\<close>

text \<open>\<open>str(n)\<close> for a non-negative integer: its decimal digits.\<close>

definition digit :: "nat \<Rightarrow> char" where
  "digit d = ''0123456789'' ! d"

function str :: "nat \<Rightarrow> string" where
  "str n = (if n < 10 then [digit n] else str (n div 10) @ [digit (n mod 10)])"
  by pat_completeness auto
termination
  by (relation "measure id") auto

declare str.simps [simp del]

text \<open>
  \<open>_generate_node_name\<close>: the loop advances the counter while \<open>"node" + str(counter)\<close>
  is a registered name; the counter is left ON the name that is returned.
\<close>

definition node_key :: "nat \<Rightarrow> string" where
  "node_key k = ''node'' @ str k"

definition name_bound :: "graph \<Rightarrow> nat" where
  "name_bound g = 10 ^ (Max (set (0 # map length (map fst (nodes g)))))"

lemma str_length_bound: "n < 10 ^ length (str n)"
proof (induction n rule: str.induct)
  case (1 n)
  show ?case
  proof (cases "n < 10")
    case True
    then show ?thesis by (subst str.simps) simp
  next
    case False
    with 1 have "n div 10 < 10 ^ length (str (n div 10))" by simp
    then have "n < 10 * 10 ^ length (str (n div 10))" by simp
    with False show ?thesis by (subst str.simps) simp
  qed
qed

lemma registered_key_bound:
  assumes "node_key k \<in> set (map fst (nodes g))"
  shows "k < name_bound g"
proof -
  let ?ls = "0 # map length (map fst (nodes g))"
  from assms obtain v where "(node_key k, v) \<in> set (nodes g)" by auto
  then have "length (fst (node_key k, v)) \<in> (\<lambda>x. length (fst x)) ` set (nodes g)"
    by (rule imageI)
  then have "length (node_key k) \<in> set ?ls" by simp
  then have "length (node_key k) \<le> Max (set ?ls)" by (intro Max_ge) auto
  moreover have "length (str k) \<le> length (node_key k)" by (simp add: node_key_def)
  ultimately have "length (str k) \<le> Max (set ?ls)" by simp
  then have "(10::nat) ^ length (str k) \<le> 10 ^ Max (set ?ls)"
    by (intro power_increasing) auto
  with str_length_bound [of k] have "k < 10 ^ Max (set ?ls)" by (rule less_le_trans)
  then show ?thesis by (simp add: name_bound_def)
qed

function generate_node_name :: "graph \<Rightarrow> string \<times> graph" where
  "generate_node_name g =
     (let name = node_key (name_sequence g)
      in if name \<notin> set (map fst (nodes g)) then (name, g)
         else generate_node_name (g\<lparr>name_sequence := name_sequence g + 1\<rparr>))"
  by pat_completeness auto
termination
proof (relation "measure (\<lambda>g. name_bound g - name_sequence g)")
  show "wf (measure (\<lambda>g. name_bound g - name_sequence g))" by simp
next
  fix g :: graph and x
  assume "x = node_key (name_sequence g)" and "\<not> x \<notin> set (map fst (nodes g))"
  then have "name_sequence g < name_bound g" using registered_key_bound by simp
  then show "(g\<lparr>name_sequence := name_sequence g + 1\<rparr>, g)
               \<in> measure (\<lambda>g. name_bound g - name_sequence g)"
    by (simp add: name_bound_def)
qed

declare generate_node_name.simps [simp del]

subsection \<open>The node registry\<close>

text \<open>
  \<open>add(node, name=None)\<close>: \<open>name or self._generate_node_name()\<close> generates a name when
  the argument is \<open>None\<close> or the empty string. The method returns the name.
\<close>

definition add :: "graph \<Rightarrow> node \<Rightarrow> string option \<Rightarrow> (error + string) \<times> graph" where
  "add g n name =
     (let (name', g') =
            (case name of
               None \<Rightarrow> generate_node_name g
             | Some s \<Rightarrow> if s = [] then generate_node_name g else (s, g))
      in if name' \<in> set (map fst (nodes g')) then (Inl KeyError, g')
         else if n \<in> set (map snd (nodes g')) then (Inl ValueError, g')
         else (Inr name', g'\<lparr>nodes := nodes g' @ [(name', n)]\<rparr>))"

text \<open>
  \<open>node_name(node)\<close>: \<open>None\<close> stands for a falsy argument (Python's \<open>None\<close>). Both
  \<open>raise StreamError\<close> branches end in \<open>NameError\<close>.
\<close>

definition node_name :: "graph \<Rightarrow> node option \<Rightarrow> error + string" where
  "node_name g arg =
     (case arg of
        None \<Rightarrow> Inl ValueError
      | Some n \<Rightarrow>
          (let names = map fst (filter (\<lambda>(key, v). v = n) (nodes g))
           in if length names = 1 then Inr (names ! 0)
              else if length names > 1 then Inl NameError
              else Inl NameError))"

text \<open>
  \<open>rename_node(node, name)\<close> tests \<open>name in self.nodes()\<close>, with a call of the
  attribute. \<open>self.nodes\<close> is an \<open>OrderedDict\<close>, which is not callable: the call
  raises \<open>TypeError\<close>, whatever the dictionary holds. \<open>nodes_call\<close> is that call.
\<close>

definition nodes_call :: "graph \<Rightarrow> error + string list" where
  "nodes_call g = Inl TypeError"

text \<open>
  After an empty name is refused, the method goes through \<open>self.nodes()\<close>; the test
  for a taken name, the lookup of the old name, the deletion of the old entry and the
  new entry (at the end of the dictionary) come after it.
\<close>

definition rename_node :: "graph \<Rightarrow> node \<Rightarrow> string \<Rightarrow> (error + unit) \<times> graph" where
  "rename_node g n name =
     (if name = [] then (Inl ValueError, g)
      else
        (case nodes_call g of
           Inl e \<Rightarrow> (Inl e, g)
         | Inr keys \<Rightarrow>
             if name \<in> set keys then (Inl ValueError, g)
             else
               (case node_name g (Some n) of
                  Inl e \<Rightarrow> (Inl e, g)
                | Inr old_name \<Rightarrow>
                    (Inr (),
                     g\<lparr>nodes := filter (\<lambda>(key, v). key \<noteq> old_name) (nodes g)
                                   @ [(name, n)]\<rparr>))))"

text \<open>
  \<open>node(reference)\<close>: \<open>self.nodes[reference]\<close> succeeds for a registered name; on
  \<open>KeyError\<close> the reference is returned when it is one of the registered nodes.
\<close>

definition node :: "graph \<Rightarrow> reference \<Rightarrow> error + node" where
  "node g r =
     (case r of
        Name s \<Rightarrow>
          (case map_of (nodes g) s of
             Some n \<Rightarrow> Inr n
           | None \<Rightarrow> Inl ValueError)
      | Handle n \<Rightarrow>
          if n \<in> set (map snd (nodes g)) then Inr n else Inl ValueError)"

text \<open>
  \<open>remove(node)\<close>: a string is a name and is looked up (\<open>KeyError\<close> when absent),
  anything else goes through \<open>node_name\<close>. Then the entry is deleted, the connections
  with the node at either end are collected in a list and removed one by one.
\<close>

definition remove :: "graph \<Rightarrow> reference \<Rightarrow> (error + unit) \<times> graph" where
  "remove g r =
     (case (case r of
              Name s \<Rightarrow>
                (case map_of (nodes g) s of
                   None \<Rightarrow> Inl KeyError
                 | Some n \<Rightarrow> Inr (s, n))
            | Handle n \<Rightarrow>
                (case node_name g (Some n) of
                   Inl e \<Rightarrow> Inl e
                 | Inr s \<Rightarrow> Inr (s, n))) of
        Inl e \<Rightarrow> (Inl e, g)
      | Inr (name, n) \<Rightarrow>
          (let nodes' = filter (\<lambda>(key, v). key \<noteq> name) (nodes g);
               remove_list = filter (\<lambda>c. source c = n \<or> target c = n) (connections g)
           in (Inr (), g\<lparr>nodes := nodes',
                         connections := fold removeAll remove_list (connections g)\<rparr>)))"

subsection \<open>The connection set\<close>

text \<open>\<open>connect\<close>: both ends are resolved, then \<open>set.add\<close>.\<close>

definition connect ::
  "graph \<Rightarrow> reference \<Rightarrow> reference \<Rightarrow> outlet \<Rightarrow> outlet \<Rightarrow> (error + unit) \<times> graph" where
  "connect g src tgt s_outlet t_outlet =
     (case node g src of
        Inl e \<Rightarrow> (Inl e, g)
      | Inr s \<Rightarrow>
          (case node g tgt of
             Inl e \<Rightarrow> (Inl e, g)
           | Inr t \<Rightarrow>
               (Inr (), g\<lparr>connections :=
                  List.insert \<lparr>source = s, target = t,
                               source_outlet = s_outlet, target_outlet = t_outlet\<rparr>
                    (connections g)\<rparr>)))"

text \<open>
  \<open>remove_connection\<close> with \<open>all_\<close> set (\<open>all_flag\<close> here) runs \<open>for conn in self.connections\<close> and
  discards from the very set it iterates. A set iterator remembers the size of the set
  at its creation and raises \<open>RuntimeError\<close> ("Set changed size during iteration") at
  the next step once the size differs. \<open>remove_all_loop\<close> is that loop: \<open>used\<close> is the
  remembered size, \<open>it\<close> what is left to iterate, \<open>cs\<close> the set. The arguments are
  compared with \<open>==\<close> as they are (no \<open>self.node\<close>): a name is never equal to a node.
\<close>

fun remove_all_loop ::
  "reference \<Rightarrow> reference \<Rightarrow> nat \<Rightarrow> connection list \<Rightarrow> connection list
     \<Rightarrow> (error + unit) \<times> connection list" where
  "remove_all_loop src tgt used [] cs =
     (if used \<noteq> length cs then (Inl RuntimeError, cs) else (Inr (), cs))"
| "remove_all_loop src tgt used (conn # it) cs =
     (if used \<noteq> length cs then (Inl RuntimeError, cs)
      else remove_all_loop src tgt used it
             (if Handle (source conn) = src \<and> Handle (target conn) = tgt
              then removeAll conn cs else cs))"

definition remove_connection ::
  "graph \<Rightarrow> reference \<Rightarrow> reference \<Rightarrow> outlet \<Rightarrow> outlet \<Rightarrow> bool
     \<Rightarrow> (error + unit) \<times> graph" where
  "remove_connection g src tgt s_outlet t_outlet all_flag =
     (if all_flag then
        (case remove_all_loop src tgt (length (connections g))
                (connections g) (connections g) of
           (r, cs) \<Rightarrow> (r, g\<lparr>connections := cs\<rparr>))
      else
        (case node g src of
           Inl e \<Rightarrow> (Inl e, g)
         | Inr s \<Rightarrow>
             (case node g tgt of
                Inl e \<Rightarrow> (Inl e, g)
              | Inr t \<Rightarrow>
                  (Inr (), g\<lparr>connections :=
                     removeAll \<lparr>source = s, target = t,
                                source_outlet = s_outlet, target_outlet = t_outlet\<rparr>
                       (connections g)\<rparr>))))"

subsection \<open>The topological sorter\<close>

text \<open>The two local functions of \<open>sorted_nodes\<close>.\<close>

definition is_source :: "node \<Rightarrow> connection list \<Rightarrow> bool" where
  "is_source n cs = list_all (\<lambda>c. n \<noteq> target c) cs"

definition source_connections :: "node \<Rightarrow> connection list \<Rightarrow> connection list" where
  "source_connections n cs = remdups (filter (\<lambda>c. n = source c) cs)"

text \<open>
  \<open>source_nodes.pop()\<close> removes and returns an arbitrary element of the set: which one
  depends on the hash table, not on the graph. The model takes the choice from a
  schedule: the head of \<open>sched\<close> (0 when the schedule is used up), modulo the size of the
  set, is the position of the element that is popped. The loop only pops from a
  non-empty set.
\<close>

definition pop :: "nat list \<Rightarrow> node list \<Rightarrow> node \<times> node list" where
  "pop sched S =
     (let n = S ! ((case sched of [] \<Rightarrow> 0 | k # _ \<Rightarrow> k) mod length S)
      in (n, removeAll n S))"

text \<open>
  The inner loop \<open>for connection in s_connections\<close>: the connection is removed from the
  working copy (it is in there, so \<open>set.remove\<close> does not raise) and its target joins
  the frontier when no connection of the working copy reaches it any more.
\<close>

fun remove_edges ::
  "connection list \<Rightarrow> connection list \<Rightarrow> node list \<Rightarrow> connection list \<times> node list" where
  "remove_edges [] cs S = (cs, S)"
| "remove_edges (c # rest) cs S =
     (let m = target c;
          cs' = removeAll c cs
      in remove_edges rest cs' (if is_source m cs' then List.insert m S else S))"

lemma remove_edges_length: "length (fst (remove_edges es cs S)) \<le> length cs"
proof (induction es arbitrary: cs S)
  case Nil
  show ?case by simp
next
  case (Cons c rest)
  have "length (fst (remove_edges rest (removeAll c cs)
          (if is_source (target c) (removeAll c cs) then List.insert (target c) S else S)))
        \<le> length (removeAll c cs)"
    by (rule Cons.IH)
  also have "\<dots> \<le> length cs" by (rule length_removeAll_less_eq)
  finally show ?case by (simp add: Let_def)
qed

lemma remove_edges_shrinks:
  assumes "es \<noteq> []" and "set es \<subseteq> set cs"
  shows "length (fst (remove_edges es cs S)) < length cs"
proof (cases es)
  case Nil
  with assms show ?thesis by simp
next
  case (Cons c rest)
  with assms have "c \<in> set cs" by simp
  then have "length (removeAll c cs) < length cs" by (rule length_removeAll_less)
  moreover have "length (fst (remove_edges rest (removeAll c cs)
          (if is_source (target c) (removeAll c cs) then List.insert (target c) S else S)))
        \<le> length (removeAll c cs)"
    by (rule remove_edges_length)
  ultimately show ?thesis using Cons by (simp add: Let_def)
qed

lemma pop_member: "S \<noteq> [] \<Longrightarrow> fst (pop sched S) \<in> set S"
  by (simp add: pop_def Let_def)

lemma pop_rest: "snd (pop sched S) = removeAll (fst (pop sched S)) S"
  by (simp add: pop_def Let_def)

text \<open>
  The loop \<open>while source_nodes\<close>: \<open>cs\<close> is the working copy of the connections, \<open>S\<close> the
  frontier \<open>source_nodes\<close>, \<open>L\<close> the list \<open>sorted_nodes\<close>. It returns what is left of
  the working copy together with the list.
\<close>

function sort_loop ::
  "nat list \<Rightarrow> connection list \<Rightarrow> node list \<Rightarrow> node list \<Rightarrow> connection list \<times> node list" where
  "sort_loop sched cs S L =
     (if S = [] then (cs, L)
      else
        (let (n, S') = pop sched S;
             L' = L @ [n];
             s_connections = source_connections n cs;
             (cs', S'') = remove_edges s_connections cs S'
         in sort_loop (tl sched) cs' S'' L'))"
  by pat_completeness auto
termination
proof (relation "measures [\<lambda>(sched, cs, S, L). length cs, \<lambda>(sched, cs, S, L). length S]")
  show "wf (measures [\<lambda>(sched, cs, S, L). length cs, \<lambda>(sched, cs, S, L). length S])"
    by simp
next
  fix sched :: "nat list" and cs S L x n S' L' s_connections y cs' S''
  assume S: "S \<noteq> []" and x: "x = pop sched S" and n: "(n, S') = x"
    and sc: "s_connections = source_connections n cs"
    and y: "y = remove_edges s_connections cs S'" and c: "(cs', S'') = y"
  have nS: "n \<in> set S" using pop_member [OF S, of sched] x n by (metis fst_conv)
  have S': "S' = removeAll n S" using pop_rest [of sched S] x n by (metis fst_conv snd_conv)
  have cs': "cs' = fst (remove_edges s_connections cs S')" using y c by (metis fst_conv)
  show "((tl sched, cs', S'', L'), (sched, cs, S, L))
          \<in> measures [\<lambda>(sched, cs, S, L). length cs, \<lambda>(sched, cs, S, L). length S]"
  proof (cases "s_connections = []")
    case True
    then have "cs' = cs" and "S'' = S'" using y c by auto
    moreover have "length S' < length S" using nS S' by (simp add: length_removeAll_less)
    ultimately show ?thesis by simp
  next
    case False
    moreover have "set s_connections \<subseteq> set cs" using sc by (auto simp: source_connections_def)
    ultimately have "length cs' < length cs" unfolding cs' by (rule remove_edges_shrinks)
    then show ?thesis by simp
  qed
qed

declare sort_loop.simps [simp del]

text \<open>
  \<open>sorted_nodes(nodes=None)\<close>: \<open>if not nodes\<close> holds for \<open>None\<close> and for an empty
  collection, and then all registered nodes are taken. The working copy is
  \<open>self.connections.copy()\<close>, so the graph itself is returned as it was. The frontier
  starts as the set of the given nodes that no connection reaches.
\<close>

definition source_nodes :: "node list \<Rightarrow> connection list \<Rightarrow> node list" where
  "source_nodes ns cs = remdups (filter (\<lambda>n. is_source n cs) ns)"

definition sorted_nodes ::
  "nat list \<Rightarrow> graph \<Rightarrow> node list option \<Rightarrow> (error + node list) \<times> graph" where
  "sorted_nodes sched g nodes_arg =
     (let ns = (case nodes_arg of
                  None \<Rightarrow> remdups (map snd (nodes g))
                | Some xs \<Rightarrow> if xs = [] then remdups (map snd (nodes g)) else xs);
          cs = connections g;
          (cs', sorted) = sort_loop sched cs (source_nodes ns cs) []
      in if cs' \<noteq> []
         then (Inl (CycleException (length cs') (length (connections g))), g)
         else (Inr sorted, g))"

section \<open>Notions the properties are stated with\<close>

text \<open>
  The connections as a relation on nodes, outlets forgotten; a graph is acyclic when
  no node reaches itself along one or more connections.
\<close>

definition edges :: "connection list \<Rightarrow> (node \<times> node) set" where
  "edges cs = (\<lambda>c. (source c, target c)) ` set cs"

text \<open>
  \<open>index_of L x\<close> is the index of the first \<open>x\<close> in \<open>L\<close> (the length of \<open>L\<close> when
  there is none).
\<close>

fun index_of :: "node list \<Rightarrow> node \<Rightarrow> nat" where
  "index_of [] x = 0"
| "index_of (y # ys) x = (if y = x then 0 else Suc (index_of ys x))"

text \<open>
  What the loop of \<open>sorted_nodes\<close> keeps true. \<open>E\<close> is the connection set of the graph,
  \<open>V\<close> the nodes the sort was asked for, \<open>cs\<close> the working copy, \<open>S\<close> the frontier and
  \<open>L\<close> the list built so far: the connections gone from the working copy are those
  that start at a listed node; frontier and listed nodes have no connection left that
  reaches them; every node asked for or reached by a connection is listed, in the
  frontier, or still reached by a connection; a listed target comes after its source.
\<close>

definition sort_inv ::
  "connection list \<Rightarrow> node set \<Rightarrow> connection list \<Rightarrow> node list \<Rightarrow> node list \<Rightarrow> bool" where
  "sort_inv E V cs S L \<longleftrightarrow>
     set cs \<subseteq> set E \<and>
     distinct L \<and> distinct S \<and> set L \<inter> set S = {} \<and>
     (\<forall>c \<in> set E. c \<in> set cs \<longleftrightarrow> source c \<notin> set L) \<and>
     (\<forall>n \<in> set S \<union> set L. is_source n cs) \<and>
     (\<forall>n \<in> V \<union> target ` set E. n \<in> set L \<or> n \<in> set S \<or> \<not> is_source n cs) \<and>
     set L \<union> set S \<subseteq> V \<union> target ` set E \<and>
     (\<forall>c \<in> set E. target c \<in> set L \<longrightarrow>
        source c \<in> set L \<and> index_of L (source c) < index_of L (target c))"

definition acyclic_graph :: "graph \<Rightarrow> bool" where
  "acyclic_graph g \<longleftrightarrow> acyclic (edges (connections g))"


text \<open>
  A node is on a cycle when it reaches itself along one or more connections, and behind
  a cycle when it is on a cycle or is reached from a node on one (a node on a cycle is
  the source of a connection, so the sources are where to look). The unresolved
  connections of a graph are those that start at a node behind a cycle: no order can
  place their source.
\<close>

definition on_cycle :: "connection list \<Rightarrow> node \<Rightarrow> bool" where
  "on_cycle cs x \<longleftrightarrow> (x, x) \<in> (edges cs)\<^sup>+"

definition behind_cycle :: "connection list \<Rightarrow> node \<Rightarrow> bool" where
  "behind_cycle cs n \<longleftrightarrow>
     (\<exists>c \<in> set cs. on_cycle cs (source c) \<and>
        (source c = n \<or> (source c, n) \<in> (edges cs)\<^sup>+))"

definition unresolved :: "graph \<Rightarrow> connection list" where
  "unresolved g = filter (\<lambda>c. behind_cycle (connections g) (source c)) (connections g)"

text \<open>The working copy of the connections when the loop of \<open>sorted_nodes()\<close> ends.\<close>

definition residual :: "nat list \<Rightarrow> graph \<Rightarrow> connection list" where
  "residual sched g =
     fst (sort_loop sched (connections g)
            (source_nodes (remdups (map snd (nodes g))) (connections g)) [])"

subsection \<open>Example graphs\<close>

text \<open>Nodes a, b, c with connections a\<rightarrow>b and b\<rightarrow>c.\<close>

definition chain_graph :: graph where
  "chain_graph =
     \<lparr>nodes = [(''a'', Node 1), (''b'', Node 2), (''c'', Node 3)],
      connections =
        [\<lparr>source = Node 1, target = Node 2, source_outlet = None, target_outlet = None\<rparr>,
         \<lparr>source = Node 2, target = Node 3, source_outlet = None, target_outlet = None\<rparr>],
      name_sequence = 1\<rparr>"

text \<open>Nodes a, b with two connections a\<rightarrow>b that differ in the source outlet.\<close>

definition two_outlets_graph :: graph where
  "two_outlets_graph =
     \<lparr>nodes = [(''a'', Node 1), (''b'', Node 2)],
      connections =
        [\<lparr>source = Node 1, target = Node 2, source_outlet = Some ''o1'', target_outlet = None\<rparr>,
         \<lparr>source = Node 1, target = Node 2, source_outlet = Some ''o2'', target_outlet = None\<rparr>],
      name_sequence = 1\<rparr>"


text \<open>Nodes a, b with the single connection a\<rightarrow>b.\<close>

definition edge_graph :: graph where
  "edge_graph =
     \<lparr>nodes = [(''a'', Node 1), (''b'', Node 2)],
      connections =
        [\<lparr>source = Node 1, target = Node 2, source_outlet = None, target_outlet = None\<rparr>],
      name_sequence = 1\<rparr>"

text \<open>Nodes a, b with connections a\<rightarrow>b and b\<rightarrow>a.\<close>

definition cycle_graph :: graph where
  "cycle_graph =
     \<lparr>nodes = [(''a'', Node 1), (''b'', Node 2)],
      connections =
        [\<lparr>source = Node 1, target = Node 2, source_outlet = None, target_outlet = None\<rparr>,
         \<lparr>source = Node 2, target = Node 1, source_outlet = None, target_outlet = None\<rparr>],
      name_sequence = 1\<rparr>"

text \<open>Nodes t, a, b with connections t\<rightarrow>a, a\<rightarrow>b and b\<rightarrow>a: a cycle with a way into it.\<close>

definition tail_cycle_graph :: graph where
  "tail_cycle_graph =
     \<lparr>nodes = [(''t'', Node 0), (''a'', Node 1), (''b'', Node 2)],
      connections =
        [\<lparr>source = Node 0, target = Node 1, source_outlet = None, target_outlet = None\<rparr>,
         \<lparr>source = Node 1, target = Node 2, source_outlet = None, target_outlet = None\<rparr>,
         \<lparr>source = Node 2, target = Node 1, source_outlet = None, target_outlet = None\<rparr>],
      name_sequence = 1\<rparr>"


text \<open>Nodes a, b and no connection.\<close>

definition pair_graph :: graph where
  "pair_graph =
     \<lparr>nodes = [(''a'', Node 1), (''b'', Node 2)], connections = [], name_sequence = 1\<rparr>"

section \<open>Properties\<close>

subsection \<open>Auxiliary facts: the sorter\<close>

lemma is_source_iff: "is_source n cs \<longleftrightarrow> (\<forall>c \<in> set cs. target c \<noteq> n)"
  by (auto simp: is_source_def list_all_iff)

lemma is_source_mono: "set cs' \<subseteq> set cs \<Longrightarrow> is_source n cs \<Longrightarrow> is_source n cs'"
  by (auto simp: is_source_iff)

lemma set_source_connections:
  "set (source_connections n cs) = {c \<in> set cs. source c = n}"
  by (auto simp: source_connections_def)

lemma index_of_less: "x \<in> set L \<Longrightarrow> index_of L x < length L"
  by (induction L) auto

lemma index_of_append: "x \<in> set L \<Longrightarrow> index_of (L @ ys) x = index_of L x"
  by (induction L) auto

lemma index_of_snoc: "x \<notin> set L \<Longrightarrow> index_of (L @ [x]) x = length L"
  by (induction L) auto


lemma remove_edges_sets:
  "remove_edges es cs S = (cs', S') \<Longrightarrow>
     set cs' = set cs - set es \<and>
     set S' = set S \<union> {m \<in> target ` set es. is_source m cs'} \<and>
     (distinct S \<longrightarrow> distinct S')"
proof (induction es arbitrary: cs S)
  case Nil
  then show ?case by simp
next
  case (Cons c rest)
  let ?cs1 = "removeAll c cs"
  let ?S1 = "if is_source (target c) ?cs1 then List.insert (target c) S else S"
  have "remove_edges (c # rest) cs S = remove_edges rest ?cs1 ?S1"
    by (simp add: Let_def)
  with Cons.prems have r: "remove_edges rest ?cs1 ?S1 = (cs', S')" by simp
  from Cons.IH [OF r]
  have cs': "set cs' = set ?cs1 - set rest"
    and S': "set S' = set ?S1 \<union> {m \<in> target ` set rest. is_source m cs'}"
    and d: "distinct ?S1 \<longrightarrow> distinct S'"
    by blast+
  have 1: "set cs' = set cs - set (c # rest)" using cs' by auto
  have 2: "set S' = set S \<union> {m \<in> target ` set (c # rest). is_source m cs'}"
  proof (cases "is_source (target c) ?cs1")
    case True
    moreover from True have "is_source (target c) cs'"
      by (rule is_source_mono [rotated]) (use cs' in auto)
    ultimately show ?thesis using S' by auto
  next
    case False
    then obtain e where e: "e \<in> set ?cs1" "target e = target c"
      by (auto simp: is_source_iff)
    have "target c \<in> target ` set rest" if "is_source (target c) cs'"
    proof -
      from that e have "e \<notin> set cs'" by (auto simp: is_source_iff)
      with e cs' have "e \<in> set rest" by auto
      with e show ?thesis by (metis imageI)
    qed
    with False S' show ?thesis by auto
  qed
  have 3: "distinct S \<longrightarrow> distinct S'" using d by (simp add: distinct_insert)
  from 1 2 3 show ?case by blast
qed


lemma sort_inv_init:
  "sort_inv E (set ns) E (source_nodes ns E) []"
  by (auto simp: sort_inv_def is_source_iff source_nodes_def)

lemma sort_inv_step:
  assumes inv: "sort_inv E V cs S L" and nS: "n \<in> set S"
    and step: "remove_edges (source_connections n cs) cs (removeAll n S) = (cs', S')"
  shows "sort_inv E V cs' S' (L @ [n])"
proof -
  let ?es = "source_connections n cs"
  from inv have sub: "set cs \<subseteq> set E" and dL: "distinct L" and dS: "distinct S"
    and disj: "set L \<inter> set S = {}"
    and rem: "\<forall>c \<in> set E. c \<in> set cs \<longleftrightarrow> source c \<notin> set L"
    and src: "\<forall>x \<in> set S \<union> set L. is_source x cs"
    and prog: "\<forall>x \<in> V \<union> target ` set E. x \<in> set L \<or> x \<in> set S \<or> \<not> is_source x cs"
    and dom: "set L \<union> set S \<subseteq> V \<union> target ` set E"
    and ord: "\<forall>c \<in> set E. target c \<in> set L \<longrightarrow>
                source c \<in> set L \<and> index_of L (source c) < index_of L (target c)"
    by (simp_all add: sort_inv_def)
  have es: "set ?es = {c \<in> set cs. source c = n}" by (rule set_source_connections)
  from remove_edges_sets [OF step]
  have cs': "set cs' = set cs - set ?es"
    and S': "set S' = set (removeAll n S) \<union> {m \<in> target ` set ?es. is_source m cs'}"
    and dS': "distinct S'"
    using dS by (simp_all add: distinct_removeAll)
  have nL: "n \<notin> set L" using nS disj by auto
  have new: "x \<notin> set L \<and> x \<notin> set S" if "x \<in> target ` set ?es" for x
  proof -
    from that es have "\<not> is_source x cs" by (auto simp: is_source_iff)
    with src show ?thesis by auto
  qed
  have 1: "set cs' \<subseteq> set E" using cs' sub by auto
  have 2: "distinct (L @ [n])" using dL nL by simp
  have 4: "set (L @ [n]) \<inter> set S' = {}"
  proof -
    have "x \<notin> set (L @ [n])" if "x \<in> set S'" for x
    proof (cases "x \<in> set (removeAll n S)")
      case True
      then show ?thesis using disj by auto
    next
      case False
      with that S' have "x \<in> target ` set ?es" by auto
      from new [OF this] nS show ?thesis by auto
    qed
    then show ?thesis by auto
  qed
  have 5: "\<forall>c \<in> set E. c \<in> set cs' \<longleftrightarrow> source c \<notin> set (L @ [n])"
    using rem cs' es by auto
  have 6: "\<forall>x \<in> set S' \<union> set (L @ [n]). is_source x cs'"
  proof
    fix x assume x: "x \<in> set S' \<union> set (L @ [n])"
    show "is_source x cs'"
    proof (cases "x \<in> set S \<union> set L")
      case True
      with src have "is_source x cs" by blast
      then show ?thesis by (rule is_source_mono [rotated]) (use cs' in auto)
    next
      case False
      with x S' nS show ?thesis by auto
    qed
  qed
  have 7: "\<forall>x \<in> V \<union> target ` set E. x \<in> set (L @ [n]) \<or> x \<in> set S' \<or> \<not> is_source x cs'"
  proof
    fix x assume x: "x \<in> V \<union> target ` set E"
    with prog have "x \<in> set L \<or> x \<in> set S \<or> \<not> is_source x cs" by blast
    then consider "x \<in> set L" | "x \<in> set S" | "\<not> is_source x cs" by blast
    then show "x \<in> set (L @ [n]) \<or> x \<in> set S' \<or> \<not> is_source x cs'"
    proof cases
      case 1
      then show ?thesis by simp
    next
      case 2
      then show ?thesis using S' by (cases "x = n") auto
    next
      case 3
      show ?thesis
      proof (cases "is_source x cs'")
        case False
        then show ?thesis by simp
      next
        case True
        from 3 obtain e where e: "e \<in> set cs" "target e = x" by (auto simp: is_source_iff)
        with True have "e \<notin> set cs'" by (auto simp: is_source_iff)
        with e cs' have "e \<in> set ?es" by auto
        with e have "x \<in> target ` set ?es" by (metis imageI)
        with True S' show ?thesis by auto
      qed
    qed
  qed
  have 8: "set (L @ [n]) \<union> set S' \<subseteq> V \<union> target ` set E"
  proof -
    have "target ` set ?es \<subseteq> target ` set E" using es sub by auto
    with dom S' nS show ?thesis by auto
  qed
  have 9: "\<forall>c \<in> set E. target c \<in> set (L @ [n]) \<longrightarrow>
             source c \<in> set (L @ [n]) \<and>
             index_of (L @ [n]) (source c) < index_of (L @ [n]) (target c)"
  proof (intro ballI impI)
    fix c assume c: "c \<in> set E" and t: "target c \<in> set (L @ [n])"
    show "source c \<in> set (L @ [n]) \<and>
          index_of (L @ [n]) (source c) < index_of (L @ [n]) (target c)"
    proof (cases "target c \<in> set L")
      case True
      with ord c have "source c \<in> set L" "index_of L (source c) < index_of L (target c)"
        by blast+
      with True show ?thesis by (simp add: index_of_append)
    next
      case False
      with t have tn: "target c = n" by simp
      from src nS have "is_source n cs" by blast
      with tn have "c \<notin> set cs" by (auto simp: is_source_iff)
      with rem c have sL: "source c \<in> set L" by blast
      then have "index_of (L @ [n]) (source c) < length L"
        by (simp add: index_of_append index_of_less)
      with sL tn nL show ?thesis by (simp add: index_of_snoc)
    qed
  qed
  from 1 2 dS' 4 5 6 7 8 9 show ?thesis unfolding sort_inv_def by blast
qed

lemma sort_loop_inv:
  "sort_inv E V cs S L \<Longrightarrow> sort_loop sched cs S L = (cs_f, L_f) \<Longrightarrow> sort_inv E V cs_f [] L_f"
proof (induction sched cs S L rule: sort_loop.induct)
  case (1 sched cs S L)
  show ?case
  proof (cases "S = []")
    case True
    with "1.prems" show ?thesis by (simp add: sort_loop.simps)
  next
    case False
    obtain n S1 where p: "pop sched S = (n, S1)" by (cases "pop sched S")
    obtain cs' S' where r: "remove_edges (source_connections n cs) cs S1 = (cs', S')"
      by (cases "remove_edges (source_connections n cs) cs S1")
    have nS: "n \<in> set S" using pop_member [OF False, of sched] p by simp
    have S1: "S1 = removeAll n S" using pop_rest [of sched S] p by simp
    have inv': "sort_inv E V cs' S' (L @ [n])"
      using "1.prems"(1) nS r [unfolded S1] by (rule sort_inv_step)
    have "sort_loop sched cs S L = sort_loop (tl sched) cs' S' (L @ [n])"
      using False p r by (subst sort_loop.simps) simp
    with "1.prems"(2) have fin: "sort_loop (tl sched) cs' S' (L @ [n]) = (cs_f, L_f)" by simp
    show ?thesis
      by (rule "1.IH" [OF False p [symmetric] refl refl refl r [symmetric] refl inv' fin])
  qed
qed


lemma finished_all_sorted:
  assumes inv: "sort_inv E V [] [] L"
  shows "set L = V \<union> target ` set E" and "source ` set E \<subseteq> set L" and "distinct L"
    and "\<forall>c \<in> set E. index_of L (source c) < index_of L (target c)"
proof -
  from inv have rem: "\<forall>c \<in> set E. source c \<in> set L"
    and prog: "\<forall>x \<in> V \<union> target ` set E. x \<in> set L"
    and dom: "set L \<subseteq> V \<union> target ` set E"
    and ord: "\<forall>c \<in> set E. target c \<in> set L \<longrightarrow>
                source c \<in> set L \<and> index_of L (source c) < index_of L (target c)"
    by (simp_all add: sort_inv_def is_source_iff)
  show "set L = V \<union> target ` set E" using prog dom by blast
  show "source ` set E \<subseteq> set L" using rem by blast
  show "distinct L" using inv by (simp add: sort_inv_def)
  show "\<forall>c \<in> set E. index_of L (source c) < index_of L (target c)"
    using ord prog by blast
qed

lemma finished_acyclic:
  assumes "sort_inv E V [] [] L"
  shows "acyclic (edges E)"
proof -
  have "acyclic ((edges E)\<inverse>)"
  proof (rule acyclicI_order [where f = "index_of L"])
    fix a b assume "(a, b) \<in> (edges E)\<inverse>"
    then obtain c where "c \<in> set E" "source c = b" "target c = a"
      by (auto simp: edges_def)
    with finished_all_sorted(4) [OF assms] show "index_of L b < index_of L a" by blast
  qed
  then show ?thesis by simp
qed

lemma acyclic_consumes_all:
  assumes inv: "sort_inv E V cs [] L" and acyc: "acyclic (edges E)"
    and ends: "source ` set E \<subseteq> V \<union> target ` set E"
  shows "cs = []"
proof (rule ccontr)
  assume "cs \<noteq> []"
  then obtain c0 where c0: "c0 \<in> set cs" by (cases cs) auto
  from inv have sub: "set cs \<subseteq> set E"
    and rem: "\<forall>c \<in> set E. c \<in> set cs \<longleftrightarrow> source c \<notin> set L"
    and prog: "\<forall>x \<in> V \<union> target ` set E. x \<in> set L \<or> \<not> is_source x cs"
    by (simp_all add: sort_inv_def)
  have "finite (edges E)" by (simp add: edges_def)
  then have "wf (edges E)" using acyc by (rule finite_acyclic_wf)
  moreover have "source c0 \<in> source ` set cs" using c0 by simp
  ultimately obtain z where z: "z \<in> source ` set cs"
    and zmin: "\<And>y. (y, z) \<in> edges E \<Longrightarrow> y \<notin> source ` set cs"
    by (rule wfE_min) blast
  from z obtain c where c: "c \<in> set cs" "source c = z" by auto
  with sub rem have "z \<notin> set L" by blast
  moreover from c sub ends have "z \<in> V \<union> target ` set E" by blast
  ultimately have "\<not> is_source z cs" using prog by blast
  then obtain c' where c': "c' \<in> set cs" "target c' = z" by (auto simp: is_source_iff)
  with sub have "(source c', z) \<in> edges E" by (auto simp: edges_def)
  from zmin [OF this] c' show False by simp
qed

lemma rank_acyclic:
  assumes "\<And>c. c \<in> set cs \<Longrightarrow> (f (source c) :: nat) < f (target c)"
  shows "acyclic (edges cs)"
proof -
  have "acyclic ((edges cs)\<inverse>)"
  proof (rule acyclicI_order [where f = f])
    fix a b assume "(a, b) \<in> (edges cs)\<inverse>"
    then obtain c where "c \<in> set cs" "source c = b" "target c = a"
      by (auto simp: edges_def)
    with assms show "f b < f a" by blast
  qed
  then show ?thesis by simp
qed

lemma sorted_nodes_result:
  assumes "sort_loop sched (connections g) (source_nodes ns (connections g)) [] = (cs', L)"
  shows "sort_inv (connections g) (set ns) cs' [] L"
  using sort_inv_init assms by (rule sort_loop_inv)

lemma sorted_nodes_all_acyclic:
  assumes wf: "wf_graph g" and acyc: "acyclic_graph g"
  shows "\<exists>L. sorted_nodes sched g None = (Inr L, g) \<and>
           distinct L \<and> set L = set (map snd (nodes g)) \<and>
           (\<forall>c \<in> set (connections g). index_of L (source c) < index_of L (target c))"
proof -
  let ?E = "connections g"
  let ?ns = "remdups (map snd (nodes g))"
  obtain cs' L where run: "sort_loop sched ?E (source_nodes ?ns ?E) [] = (cs', L)"
    by (cases "sort_loop sched ?E (source_nodes ?ns ?E) []")
  then have inv: "sort_inv ?E (set ?ns) cs' [] L" by (rule sorted_nodes_result)
  from wf have ends: "source ` set ?E \<subseteq> set ?ns \<union> target ` set ?E"
    and tg: "target ` set ?E \<subseteq> set ?ns"
    by (auto simp: wf_graph_def)
  from acyc have "acyclic (edges ?E)" by (simp add: acyclic_graph_def)
  with inv have e: "cs' = []" using ends by (rule acyclic_consumes_all)
  from inv have inv0: "sort_inv ?E (set ?ns) [] [] L" by (simp only: e)
  have "set L = set ?ns \<union> target ` set ?E" by (rule finished_all_sorted(1) [OF inv0])
  with tg have "set L = set (map snd (nodes g))" by auto
  moreover have "distinct L" by (rule finished_all_sorted(3) [OF inv0])
  moreover have "sorted_nodes sched g None = (Inr L, g)"
    using run e by (simp add: sorted_nodes_def)
  moreover note finished_all_sorted(4) [OF inv0]
  ultimately show ?thesis by blast
qed



lemma node_rank_chain: "acyclic_graph chain_graph"
  unfolding acyclic_graph_def
  by (rule rank_acyclic [where f = "\<lambda>n. case n of Node k \<Rightarrow> k"])
     (auto simp: chain_graph_def)

text \<open>
  What is left of the working copy is a sublist of the connections in their order; on
  a well-formed graph it is the list of the unresolved connections.
\<close>

lemma remove_edges_filter:
  "fst (remove_edges es cs S) = filter (\<lambda>c. c \<notin> set es) cs"
proof (induction es arbitrary: cs S)
  case Nil
  show ?case by simp
next
  case (Cons e es)
  have "fst (remove_edges (e # es) cs S) =
          fst (remove_edges es (removeAll e cs)
            (if is_source (target e) (removeAll e cs) then List.insert (target e) S else S))"
    by (simp add: Let_def)
  also have "\<dots> = filter (\<lambda>c. c \<notin> set es) (removeAll e cs)" by (rule Cons.IH)
  also have "\<dots> = filter (\<lambda>c. c \<notin> set (e # es)) cs"
    by (induction cs) auto
  finally show ?case .
qed

lemma sort_loop_filter:
  "\<exists>P. fst (sort_loop sched cs S L) = filter P cs"
proof (induction sched cs S L rule: sort_loop.induct)
  case (1 sched cs S L)
  show ?case
  proof (cases "S = []")
    case True
    then have "fst (sort_loop sched cs S L) = filter (\<lambda>c. True) cs"
      by (simp add: sort_loop.simps)
    then show ?thesis by blast
  next
    case False
    obtain n S1 where p: "pop sched S = (n, S1)" by (cases "pop sched S")
    obtain cs' S' where r: "remove_edges (source_connections n cs) cs S1 = (cs', S')"
      by (cases "remove_edges (source_connections n cs) cs S1")
    have unf: "sort_loop sched cs S L = sort_loop (tl sched) cs' S' (L @ [n])"
      using False p r by (subst sort_loop.simps) simp
    from "1.IH" [OF False p [symmetric] refl refl refl r [symmetric] refl]
    obtain P where P: "fst (sort_loop (tl sched) cs' S' (L @ [n])) = filter P cs'" by blast
    have "cs' = filter (\<lambda>c. c \<notin> set (source_connections n cs)) cs"
      using remove_edges_filter [of "source_connections n cs" cs S1] r by simp
    with P unf have "fst (sort_loop sched cs S L) =
        filter (\<lambda>c. c \<notin> set (source_connections n cs) \<and> P c) cs"
      by simp
    then show ?thesis by blast
  qed
qed

lemma listed_closed:
  assumes inv: "sort_inv E V cs S L" and "(a, b) \<in> (edges E)\<^sup>+" and "b \<in> set L"
  shows "a \<in> set L \<and> index_of L a < index_of L b"
  using assms(2,3)
proof (induction rule: trancl_induct)
  case (base y)
  then obtain c where "c \<in> set E" "source c = a" "target c = y" by (auto simp: edges_def)
  with inv base show ?case by (auto simp: sort_inv_def)
next
  case (step y z)
  from step.hyps(2) obtain c where "c \<in> set E" "source c = y" "target c = z"
    by (auto simp: edges_def)
  with inv step.prems have "y \<in> set L" "index_of L y < index_of L z"
    by (auto simp: sort_inv_def)
  with step.IH show ?case by auto
qed

lemma left_iff_behind_cycle:
  assumes inv: "sort_inv E V cs [] L"
    and ends: "source ` set E \<subseteq> V \<union> target ` set E"
    and c: "c \<in> set E"
  shows "c \<in> set cs \<longleftrightarrow> behind_cycle E (source c)"
proof
  let ?R = "edges E"
  let ?n = "source c"
  from inv have sub: "set cs \<subseteq> set E"
    and rem: "\<forall>c \<in> set E. c \<in> set cs \<longleftrightarrow> source c \<notin> set L"
    and prog: "\<forall>x \<in> V \<union> target ` set E. x \<in> set L \<or> \<not> is_source x cs"
    by (simp_all add: sort_inv_def)
  {
    assume "behind_cycle E ?n"
    then obtain c0 where c0: "c0 \<in> set E" and cyc: "(source c0, source c0) \<in> ?R\<^sup>+"
      and reach: "source c0 = ?n \<or> (source c0, ?n) \<in> ?R\<^sup>+"
      by (auto simp: behind_cycle_def on_cycle_def)
    have x: "source c0 \<notin> set L"
    proof
      assume "source c0 \<in> set L"
      from listed_closed [OF inv cyc this] show False by simp
    qed
    have "?n \<notin> set L"
    proof
      assume n: "?n \<in> set L"
      from reach show False
      proof
        assume "source c0 = ?n"
        with x n show False by simp
      next
        assume "(source c0, ?n) \<in> ?R\<^sup>+"
        from listed_closed [OF inv this n] x show False by simp
      qed
    qed
    with rem c show "c \<in> set cs" by blast
  }
  {
    assume ccs: "c \<in> set cs"
    define U where "U = {u \<in> source ` set E. u \<notin> set L \<and> (u = ?n \<or> (u, ?n) \<in> ?R\<^sup>+)}"
    define R' where "R' = {(a, b) \<in> ?R. a \<in> U \<and> b \<in> U}"
    have nU: "?n \<in> U" using ccs rem c by (auto simp: U_def)
    have "\<not> acyclic R'"
    proof
      assume "acyclic R'"
      moreover have "finite R'"
        by (rule finite_subset [of _ ?R]) (auto simp: R'_def edges_def)
      ultimately have "wf R'" by (rule finite_acyclic_wf [rotated])
      then obtain z where z: "z \<in> U" and zmin: "\<And>y. (y, z) \<in> R' \<Longrightarrow> y \<notin> U"
        using nU by (rule wfE_min) blast
      from z have zs: "z \<in> source ` set E" and zL: "z \<notin> set L"
        and zn: "z = ?n \<or> (z, ?n) \<in> ?R\<^sup>+"
        by (simp_all add: U_def)
      from zs ends have "z \<in> V \<union> target ` set E" by blast
      with prog zL have "\<not> is_source z cs" by blast
      then obtain c' where c': "c' \<in> set cs" "target c' = z" by (auto simp: is_source_iff)
      with sub have c'E: "c' \<in> set E" by blast
      then have pz: "(source c', z) \<in> ?R" using c' by (auto simp: edges_def)
      have "source c' \<notin> set L" using rem c'E c' by blast
      moreover have "(source c', ?n) \<in> ?R\<^sup>+"
        using zn pz by (auto intro: trancl_into_trancl2)
      ultimately have "source c' \<in> U" using c'E by (auto simp: U_def)
      with pz z have "(source c', z) \<in> R'" by (simp add: R'_def)
      from zmin [OF this] \<open>source c' \<in> U\<close> show False by simp
    qed
    then obtain x where xx: "(x, x) \<in> R'\<^sup>+" by (auto simp: acyclic_def)
    have "R' \<subseteq> ?R" by (auto simp: R'_def)
    then have "R'\<^sup>+ \<subseteq> ?R\<^sup>+" by (rule trancl_mono_subset)
    with xx have cyc: "(x, x) \<in> ?R\<^sup>+" by blast
    from xx obtain y where "(x, y) \<in> R'" by (auto dest: tranclD)
    then have "x \<in> U" by (simp add: R'_def)
    then obtain c0 where "c0 \<in> set E" "source c0 = x" "x = ?n \<or> (x, ?n) \<in> ?R\<^sup>+"
      by (auto simp: U_def)
    with cyc show "behind_cycle E ?n"
      by (auto simp: behind_cycle_def on_cycle_def)
  }
qed

lemma sorted_nodes_cyclic:
  assumes "\<not> acyclic_graph g"
  shows "residual sched g \<noteq> [] \<and>
         length (residual sched g) \<le> length (connections g) \<and>
         sorted_nodes sched g None =
           (Inl (CycleException (length (residual sched g)) (length (connections g))), g)"
proof -
  let ?E = "connections g"
  let ?ns = "remdups (map snd (nodes g))"
  obtain cs' L where run: "sort_loop sched ?E (source_nodes ?ns ?E) [] = (cs', L)"
    by (cases "sort_loop sched ?E (source_nodes ?ns ?E) []")
  then have inv: "sort_inv ?E (set ?ns) cs' [] L" by (rule sorted_nodes_result)
  have res: "residual sched g = cs'" using run by (simp add: residual_def)
  have ne: "cs' \<noteq> []"
  proof
    assume "cs' = []"
    with inv have "sort_inv ?E (set ?ns) [] [] L" by simp
    then have "acyclic (edges ?E)" by (rule finished_acyclic)
    with assms show False by (simp add: acyclic_graph_def)
  qed
  obtain P where "fst (sort_loop sched ?E (source_nodes ?ns ?E) []) = filter P ?E"
    using sort_loop_filter by blast
  with run have "cs' = filter P ?E" by simp
  then have le: "length cs' \<le> length ?E" by simp
  have r: "sorted_nodes sched g None = (Inl (CycleException (length cs') (length ?E)), g)"
    using run ne by (simp add: sorted_nodes_def)
  from ne le r show ?thesis unfolding res by blast
qed

lemma residual_unresolved:
  assumes "wf_graph g"
  shows "residual sched g = unresolved g"
proof -
  let ?E = "connections g"
  let ?ns = "remdups (map snd (nodes g))"
  obtain cs' L where run: "sort_loop sched ?E (source_nodes ?ns ?E) [] = (cs', L)"
    by (cases "sort_loop sched ?E (source_nodes ?ns ?E) []")
  then have inv: "sort_inv ?E (set ?ns) cs' [] L" by (rule sorted_nodes_result)
  have res: "residual sched g = cs'" using run by (simp add: residual_def)
  from assms have ends: "source ` set ?E \<subseteq> set ?ns \<union> target ` set ?E"
    by (auto simp: wf_graph_def)
  obtain P where "fst (sort_loop sched ?E (source_nodes ?ns ?E) []) = filter P ?E"
    using sort_loop_filter by blast
  with run have P: "cs' = filter P ?E" by simp
  have "filter P ?E = filter (\<lambda>c. behind_cycle ?E (source c)) ?E"
  proof (rule filter_cong [OF refl])
    fix c assume c: "c \<in> set ?E"
    have "P c \<longleftrightarrow> c \<in> set cs'" using c P by simp
    also have "\<dots> \<longleftrightarrow> behind_cycle ?E (source c)"
      using inv ends c by (rule left_iff_behind_cycle)
    finally show "P c = behind_cycle ?E (source c)" .
  qed
  with P res show ?thesis by (simp add: unresolved_def)
qed

lemma two_cycle: "\<not> acyclic_graph cycle_graph"
proof -
  have "(Node 1, Node 1) \<in> (edges (connections cycle_graph))\<^sup>+"
    by (rule trancl_into_trancl [where b = "Node 2"], rule r_into_trancl)
       (simp_all add: edges_def cycle_graph_def)
  then show ?thesis by (auto simp: acyclic_graph_def acyclic_def)
qed


subsection \<open>Auxiliary facts: registry and connection set\<close>

lemma fold_removeAll_filter:
  "fold removeAll xs cs = filter (\<lambda>c. c \<notin> set xs) cs"
proof (induction xs arbitrary: cs)
  case Nil
  show ?case by simp
next
  case (Cons x xs)
  have "fold removeAll (x # xs) cs = fold removeAll xs (removeAll x cs)" by simp
  also have "\<dots> = filter (\<lambda>c. c \<notin> set xs) (removeAll x cs)" by (rule Cons.IH)
  also have "\<dots> = filter (\<lambda>c. c \<notin> set (x # xs)) cs"
    by (induction cs) auto
  finally show ?case .
qed

lemma names_of_registered:
  assumes "distinct (map snd xs)" and "(k, v) \<in> set xs"
  shows "map fst (filter (\<lambda>(key, w). w = v) xs) = [k]"
  using assms
proof (induction xs)
  case Nil
  then show ?case by simp
next
  case (Cons e xs)
  obtain k' v' where e: "e = (k', v')" by (cases e)
  show ?case
  proof (cases "v' = v")
    case True
    with Cons.prems e have "k' = k" by (auto simp: image_iff)
    moreover have "filter (\<lambda>(key, w). w = v) xs = []"
      using Cons.prems e True by (auto simp: filter_empty_conv image_iff)
    ultimately show ?thesis using e True by simp
  next
    case False
    with Cons e show ?thesis by auto
  qed
qed

lemma node_name_registered:
  assumes "distinct (map snd (nodes g))" and "(k, v) \<in> set (nodes g)"
  shows "node_name g (Some v) = Inr k"
  using names_of_registered [OF assms] by (simp add: node_name_def)

lemma filter_key_entry:
  assumes "distinct (map fst xs)" and "(k, v) \<in> set xs"
  shows "filter (\<lambda>(key, w). key \<noteq> k) xs = filter (\<lambda>e. e \<noteq> (k, v)) xs"
proof (rule filter_cong [OF refl])
  fix e assume "e \<in> set xs"
  with assms have "fst e = k \<longleftrightarrow> e = (k, v)"
    by (metis eq_key_imp_eq_value fst_conv prod.collapse)
  then show "(case e of (key, w) \<Rightarrow> key \<noteq> k) = (e \<noteq> (k, v))"
    by (cases e) auto
qed

lemma count_list_distinct:
  "distinct xs \<Longrightarrow> x \<in> set xs \<Longrightarrow> count_list xs x = 1"
  by (induction xs) auto

lemma count_list_insert_same:
  "distinct xs \<Longrightarrow> count_list (List.insert x xs) x = 1"
  by (simp add: count_list_distinct distinct_insert)

lemma count_list_insert_other:
  "y \<noteq> x \<Longrightarrow> count_list (List.insert y xs) x = count_list xs x"
  by (simp add: List.insert_def)

lemma node_connections_update: "node (g\<lparr>connections := xs\<rparr>) r = node g r"
  by (cases r) (simp_all add: node_def)

lemma node_key_numeral:
  "node_key 1 = ''node1''" "node_key 2 = ''node2''"
  "node_key 3 = ''node3''" "node_key 4 = ''node4''"
  by code_simp+

lemma node_key_Suc:
  "node_key (Suc 0) = ''node1''" "node_key (Suc (Suc 0)) = ''node2''"
  "node_key (Suc (Suc (Suc 0))) = ''node3''" "node_key (Suc (Suc (Suc (Suc 0)))) = ''node4''"
  by code_simp+

lemma generate_free:
  "node_key (name_sequence g) \<notin> set (map fst (nodes g)) \<Longrightarrow>
   generate_node_name g = (node_key (name_sequence g), g)"
  by (subst generate_node_name.simps) (simp add: Let_def)

lemma generate_taken:
  "node_key (name_sequence g) \<in> set (map fst (nodes g)) \<Longrightarrow>
   generate_node_name g = generate_node_name (g\<lparr>name_sequence := name_sequence g + 1\<rparr>)"
  by (subst generate_node_name.simps) (simp add: Let_def)

text \<open>
  The counter is left on the number of the last name it issued, so a freed name is
  issued again exactly when it is that last one: after node1, node2, node3, removing
  node3 makes the next generated name node3 again.
\<close>

lemma last_name_reused:
  assumes "distinct [a, b, c, d]"
  shows "\<exists>g1 g2 g3 g4 g5.
     add empty_graph a None = (Inr ''node1'', g1) \<and>
     add g1 b None = (Inr ''node2'', g2) \<and>
     add g2 c None = (Inr ''node3'', g3) \<and>
     remove g3 (Name ''node3'') = (Inr (), g4) \<and>
     add g4 d None = (Inr ''node3'', g5)"
  using assms
  by (auto simp: add_def empty_graph_def generate_free generate_taken node_key_numeral
        node_key_Suc remove_def node_name_def Let_def)

subsection \<open>Graphs built through the methods are well formed\<close>

text \<open>
  The empty graph is well formed, every method returns a well-formed graph when it is
  given one (also when it raises), and \<open>sorted_nodes\<close> returns the graph it was given.
\<close>

lemma wf_empty_graph: "wf_graph empty_graph"
  by (simp add: wf_graph_def empty_graph_def)

lemma generate_node_name_result:
  "nodes (snd (generate_node_name g)) = nodes g \<and>
   connections (snd (generate_node_name g)) = connections g \<and>
   name_sequence g \<le> name_sequence (snd (generate_node_name g)) \<and>
   fst (generate_node_name g) = node_key (name_sequence (snd (generate_node_name g))) \<and>
   fst (generate_node_name g) \<notin> set (map fst (nodes g))"
proof (induction g rule: generate_node_name.induct)
  case (1 g)
  show ?case
  proof (cases "node_key (name_sequence g) \<in> set (map fst (nodes g))")
    case False
    then have "generate_node_name g = (node_key (name_sequence g), g)"
      by (subst generate_node_name.simps) (simp add: Let_def)
    with False show ?thesis by simp
  next
    case True
    then have "generate_node_name g =
                 generate_node_name (g\<lparr>name_sequence := name_sequence g + 1\<rparr>)"
      by (subst generate_node_name.simps) (simp add: Let_def)
    moreover from True have "\<not> node_key (name_sequence g) \<notin> set (map fst (nodes g))" by simp
    note "1.IH" [OF refl this]
    ultimately show ?thesis by force
  qed
qed

lemma node_registered: "node g r = Inr n \<Longrightarrow> n \<in> set (map snd (nodes g))"
proof (cases r)
  case (Name s)
  assume "node g r = Inr n"
  with Name have "map_of (nodes g) s = Some n"
    by (simp add: node_def split: option.splits)
  then have "(s, n) \<in> set (nodes g)" by (rule map_of_SomeD)
  then show ?thesis by (metis image_eqI set_map snd_conv)
next
  case (Handle m)
  assume "node g r = Inr n"
  with Handle show ?thesis by (simp add: node_def split: if_splits)
qed

lemma wf_add: "wf_graph g \<Longrightarrow> wf_graph (snd (add g n name))"
proof -
  assume wf: "wf_graph g"
  have step: "wf_graph (snd (if k \<in> set (map fst (nodes g')) then (Inl KeyError, g')
                 else if n \<in> set (map snd (nodes g')) then (Inl ValueError, g')
                 else (Inr k, g'\<lparr>nodes := nodes g' @ [(k, n)]\<rparr>)))"
    if "wf_graph g'" for k g'
    using that by (auto simp: wf_graph_def)
  have gen: "wf_graph (snd (generate_node_name g))"
    using wf generate_node_name_result [of g] by (simp add: wf_graph_def)
  show ?thesis
  proof (cases "name = None \<or> name = Some []")
    case True
    then have "add g n name =
      (if fst (generate_node_name g) \<in> set (map fst (nodes (snd (generate_node_name g))))
       then (Inl KeyError, snd (generate_node_name g))
       else if n \<in> set (map snd (nodes (snd (generate_node_name g))))
       then (Inl ValueError, snd (generate_node_name g))
       else (Inr (fst (generate_node_name g)),
             (snd (generate_node_name g))\<lparr>nodes := nodes (snd (generate_node_name g))
                @ [(fst (generate_node_name g), n)]\<rparr>))"
      by (elim disjE) (simp_all add: add_def split_beta Let_def del: set_map)
    with step [OF gen] show ?thesis by simp
  next
    case False
    then obtain s where "name = Some s" "s \<noteq> []" by (cases name) auto
    then have "add g n name =
      (if s \<in> set (map fst (nodes g)) then (Inl KeyError, g)
       else if n \<in> set (map snd (nodes g)) then (Inl ValueError, g)
       else (Inr s, g\<lparr>nodes := nodes g @ [(s, n)]\<rparr>))"
      by (simp add: add_def)
    with step [OF wf] show ?thesis by simp
  qed
qed

lemma wf_connect: "wf_graph g \<Longrightarrow> wf_graph (snd (connect g src tgt s_out t_out))"
  by (auto simp: connect_def wf_graph_def split: sum.splits
        dest: node_registered)

lemma wf_rename_node: "wf_graph g \<Longrightarrow> wf_graph (snd (rename_node g n name))"
  by (simp add: rename_node_def nodes_call_def)

lemma wf_remove: "wf_graph g \<Longrightarrow> wf_graph (snd (remove g r))"
proof -
  assume wf: "wf_graph g"
  have del: "wf_graph (g\<lparr>nodes := filter (\<lambda>(key, v). key \<noteq> s) (nodes g),
               connections := fold removeAll
                 (filter (\<lambda>c. source c = n \<or> target c = n) (connections g)) (connections g)\<rparr>)"
    if "(s, n) \<in> set (nodes g)" for s n
  proof -
    from wf have dk: "distinct (map fst (nodes g))" and dv: "distinct (map snd (nodes g))"
      and dc: "distinct (connections g)"
      and ends: "\<forall>c \<in> set (connections g).
                   source c \<in> set (map snd (nodes g)) \<and> target c \<in> set (map snd (nodes g))"
      by (simp_all add: wf_graph_def)
    have fk: "filter (\<lambda>(key, v). key \<noteq> s) (nodes g) = filter (\<lambda>e. e \<noteq> (s, n)) (nodes g)"
      using dk that by (rule filter_key_entry)
    have keep: "m \<in> set (map snd (filter (\<lambda>e. e \<noteq> (s, n)) (nodes g)))"
      if "m \<in> set (map snd (nodes g))" "m \<noteq> n" for m
      using that by force
    show ?thesis
      unfolding wf_graph_def fold_removeAll_filter fk
      using dk dv dc ends keep by (auto simp: distinct_map_filter)
  qed
  show ?thesis
  proof (cases r)
    case (Name s)
    show ?thesis
    proof (cases "map_of (nodes g) s")
      case None
      with Name wf show ?thesis by (simp add: remove_def)
    next
      case (Some n)
      then have "(s, n) \<in> set (nodes g)" by (rule map_of_SomeD)
      from del [OF this] Name Some show ?thesis by (simp add: remove_def Let_def)
    qed
  next
    case (Handle n)
    show ?thesis
    proof (cases "node_name g (Some n)")
      case (Inl e)
      with Handle wf show ?thesis by (simp add: remove_def)
    next
      case (Inr s)
      let ?names = "map fst (filter (\<lambda>(key, v). v = n) (nodes g))"
      from Inr have "length ?names = 1" and "?names ! 0 = s"
        by (simp_all add: node_name_def Let_def split: if_splits)
      then have "s \<in> set ?names" by (metis nth_mem zero_less_one)
      then have "(s, n) \<in> set (nodes g)" by auto
      from del [OF this] Handle Inr show ?thesis by (simp add: remove_def Let_def)
    qed
  qed
qed

lemma remove_all_loop_subset:
  "distinct cs \<Longrightarrow>
   distinct (snd (remove_all_loop src tgt used it cs)) \<and>
   set (snd (remove_all_loop src tgt used it cs)) \<subseteq> set cs"
proof (induction it arbitrary: cs)
  case Nil
  then show ?case by simp
next
  case (Cons conn it)
  show ?case
  proof (cases "used \<noteq> length cs")
    case True
    with Cons.prems show ?thesis by simp
  next
    case False
    let ?cs = "if Handle (source conn) = src \<and> Handle (target conn) = tgt
               then removeAll conn cs else cs"
    from Cons.prems have "distinct ?cs" by (simp add: distinct_removeAll)
    from Cons.IH [OF this] have "distinct (snd (remove_all_loop src tgt used it ?cs))"
      and "set (snd (remove_all_loop src tgt used it ?cs)) \<subseteq> set ?cs" by blast+
    moreover have "set ?cs \<subseteq> set cs" by auto
    ultimately show ?thesis using False by auto
  qed
qed

lemma wf_remove_connection:
  "wf_graph g \<Longrightarrow> wf_graph (snd (remove_connection g src tgt s_out t_out all_flag))"
proof (cases all_flag)
  case True
  assume wf: "wf_graph g"
  then have "distinct (connections g)" by (simp add: wf_graph_def)
  from remove_all_loop_subset [OF this, of src tgt "length (connections g)" "connections g"]
  show ?thesis using wf True
    by (auto simp: remove_connection_def wf_graph_def split: prod.splits)
next
  case False
  assume "wf_graph g"
  with False show ?thesis
    by (auto simp: remove_connection_def wf_graph_def distinct_removeAll split: sum.splits)
qed

lemma wf_sorted_nodes: "snd (sorted_nodes sched g nodes_arg) = g"
  by (simp add: sorted_nodes_def Let_def split: prod.splits)

subsection \<open>The loop of \<open>remove_connection\<close> over the set it changes\<close>

text \<open>
  Whatever the iteration order: as soon as one connection of the graph joins the two
  given nodes, the call with \<open>all_\<close> set raises \<open>RuntimeError\<close> and exactly one
  connection has gone.
\<close>

lemma remove_all_loop_changed:
  "used \<noteq> length cs \<Longrightarrow> remove_all_loop src tgt used it cs = (Inl RuntimeError, cs)"
  by (cases it) simp_all

lemma remove_all_loop_raises:
  assumes "distinct cs" and "set it \<subseteq> set cs"
    and "\<exists>c \<in> set it. Handle (source c) = src \<and> Handle (target c) = tgt"
  shows "fst (remove_all_loop src tgt (length cs) it cs) = Inl RuntimeError \<and>
         Suc (length (snd (remove_all_loop src tgt (length cs) it cs))) = length cs"
  using assms(2,3)
proof (induction it)
  case Nil
  then show ?case by simp
next
  case (Cons conn it)
  show ?case
  proof (cases "Handle (source conn) = src \<and> Handle (target conn) = tgt")
    case True
    from Cons.prems(1) have "conn \<in> set cs" by simp
    with assms(1) have len: "Suc (length (removeAll conn cs)) = length cs"
      by (simp add: distinct_remove1_removeAll [symmetric] length_remove1)
         (metis Suc_pred length_pos_if_in_set)
    then have "length cs \<noteq> length (removeAll conn cs)" by simp
    then have "remove_all_loop src tgt (length cs) it (removeAll conn cs)
                 = (Inl RuntimeError, removeAll conn cs)"
      by (rule remove_all_loop_changed)
    with True len show ?thesis by simp
  next
    case False
    with Cons.prems have "set it \<subseteq> set cs"
      and "\<exists>c \<in> set it. Handle (source c) = src \<and> Handle (target c) = tgt"
      by auto
    moreover have "remove_all_loop src tgt (length cs) (conn # it) cs
                     = remove_all_loop src tgt (length cs) it cs"
      using False by auto
    ultimately show ?thesis using Cons.IH by simp
  qed
qed

lemma remove_connection_all_matching:
  assumes "wf_graph g" and "c \<in> set (connections g)"
    and "source c = a" and "target c = b"
  shows "fst (remove_connection g (Handle a) (Handle b) s_out t_out True) = Inl RuntimeError \<and>
         Suc (length (connections
           (snd (remove_connection g (Handle a) (Handle b) s_out t_out True))))
         = length (connections g)"
proof -
  from assms(1) have d: "distinct (connections g)" by (simp add: wf_graph_def)
  have "\<exists>c \<in> set (connections g). Handle (source c) = Handle a \<and> Handle (target c) = Handle b"
    using assms(2-4) by auto
  from remove_all_loop_raises [OF d subset_refl this]
  show ?thesis by (auto simp: remove_connection_def split: prod.splits)
qed

subsection \<open>Claims about the registry\<close>

text \<open>
  C4: \<open>rename_node\<close> is meant to move the entry of the node to the new name. It never
  does: with any non-empty name it raises \<open>TypeError\<close> (the call \<open>self.nodes()\<close>) and
  leaves the graph as it was, whether the name is free or taken. So on the graph with
  the single node a, renaming that node to the free name b raises \<open>TypeError\<close> and the
  registry keeps the entry a.
\<close>

theorem rename_node_raises:
  "rename_node g n (ch # name) = (Inl TypeError, g) \<and>
   rename_node \<lparr>nodes = [(''a'', Node 1)], connections = [], name_sequence = 1\<rparr> (Node 1) ''b''
     = (Inl TypeError, \<lparr>nodes = [(''a'', Node 1)], connections = [], name_sequence = 1\<rparr>)"
  by (simp add: rename_node_def nodes_call_def)

text \<open>
  C7: in a graph as its methods build it, removing a registered node, referenced by its
  name or by the node itself, succeeds; it deletes the entry of the node and nothing
  else from the registry (the other entries keep their order), and deletes exactly the
  connections that have the node as source or as target, whatever their outlets.
\<close>

theorem remove_cascades:
  assumes "wf_graph g" and "(name, n) \<in> set (nodes g)"
    and "r = Name name \<or> r = Handle n"
  shows "remove g r =
           (Inr (), g\<lparr>nodes := filter (\<lambda>e. e \<noteq> (name, n)) (nodes g),
                       connections :=
                         filter (\<lambda>c. source c \<noteq> n \<and> target c \<noteq> n) (connections g)\<rparr>)"
proof -
  from assms(1) have dk: "distinct (map fst (nodes g))" and dv: "distinct (map snd (nodes g))"
    by (simp_all add: wf_graph_def)
  have look: "map_of (nodes g) name = Some n" using dk assms(2) by simp
  have nm: "node_name g (Some n) = Inr name" using dv assms(2) by (rule node_name_registered)
  have fk: "filter (\<lambda>(key, w). key \<noteq> name) (nodes g) = filter (\<lambda>e. e \<noteq> (name, n)) (nodes g)"
    using dk assms(2) by (rule filter_key_entry)
  have fc: "fold removeAll (filter (\<lambda>c. source c = n \<or> target c = n) (connections g)) (connections g)
            = filter (\<lambda>c. source c \<noteq> n \<and> target c \<noteq> n) (connections g)"
    unfolding fold_removeAll_filter by (rule filter_cong) auto
  from assms(3) show ?thesis
  proof
    assume "r = Name name"
    then show ?thesis by (simp add: remove_def look fk fc Let_def)
  next
    assume "r = Handle n"
    then show ?thesis by (simp add: remove_def nm fk fc Let_def)
  qed
qed

theorem remove_cascades_witness:
  "wf_graph chain_graph \<and> (''b'', Node 2) \<in> set (nodes chain_graph) \<and>
   remove chain_graph (Handle (Node 2)) =
     (Inr (), \<lparr>nodes = [(''a'', Node 1), (''c'', Node 3)], connections = [],
               name_sequence = 1\<rparr>)"
proof -
  have w: "wf_graph chain_graph" by (simp add: wf_graph_def chain_graph_def)
  have m: "(''b'', Node 2) \<in> set (nodes chain_graph)" by (simp add: chain_graph_def)
  show ?thesis
    using w m remove_cascades [OF w m, of "Handle (Node 2)"]
    by (simp add: chain_graph_def)
qed

text \<open>
  C8: starting from the empty graph, three nodes added without a name get the names
  node1, node2 and node3, in that order. When the node named node2 is then removed (by
  name or by the node itself) and a fourth node is added without a name, its name is
  node4, not node2: the counter stands at 3, node3 is taken, and the loop moves on to 4.
\<close>

theorem auto_naming:
  assumes "distinct [a, b, c, d]"
  shows "\<exists>g1 g2 g3 g4 g5.
     add empty_graph a None = (Inr ''node1'', g1) \<and>
     add g1 b None = (Inr ''node2'', g2) \<and>
     add g2 c None = (Inr ''node3'', g3) \<and>
     remove g3 (Name ''node2'') = (Inr (), g4) \<and>
     remove g3 (Handle b) = (Inr (), g4) \<and>
     add g4 d None = (Inr ''node4'', g5) \<and>
     fst (add g4 d None) \<noteq> Inr ''node2'' \<and>
     name_sequence g3 = 3 \<and> name_sequence g5 = 4 \<and>
     nodes g5 = [(''node1'', a), (''node3'', c), (''node4'', d)]"
  using assms
  by (auto simp: add_def empty_graph_def generate_free generate_taken node_key_numeral
        node_key_Suc remove_def node_name_def Let_def)

theorem auto_naming_witness:
  "distinct [Node 1, Node 2, Node 3, Node 4] \<and>
   (\<exists>g1 g2 g3 g4 g5.
     add empty_graph (Node 1) None = (Inr ''node1'', g1) \<and>
     add g1 (Node 2) None = (Inr ''node2'', g2) \<and>
     add g2 (Node 3) None = (Inr ''node3'', g3) \<and>
     remove g3 (Name ''node2'') = (Inr (), g4) \<and>
     remove g3 (Handle (Node 2)) = (Inr (), g4) \<and>
     add g4 (Node 4) None = (Inr ''node4'', g5) \<and>
     fst (add g4 (Node 4) None) \<noteq> Inr ''node2'' \<and>
     name_sequence g3 = 3 \<and> name_sequence g5 = 4 \<and>
     nodes g5 = [(''node1'', Node 1), (''node3'', Node 3), (''node4'', Node 4)])"
proof -
  have d: "distinct [Node 1, Node 2, Node 3, Node 4]" by simp
  from d auto_naming [OF d] show ?thesis by blast
qed

subsection \<open>Claims about the connection set\<close>

text \<open>
  C5: \<open>remove_connection\<close> with \<open>all_\<close> set is meant to remove every connection
  between the two nodes. On the graph with two connections a\<rightarrow>b that differ in the
  source outlet it removes one of them, raises \<open>RuntimeError\<close>, and the other
  connection is still there.
\<close>

theorem remove_connection_all_raises:
  "remove_connection two_outlets_graph (Handle (Node 1)) (Handle (Node 2)) None None True
     = (Inl RuntimeError,
        two_outlets_graph\<lparr>connections :=
          [\<lparr>source = Node 1, target = Node 2, source_outlet = Some ''o2'',
            target_outlet = None\<rparr>]\<rparr>)"
  by (simp add: remove_connection_def two_outlets_graph_def)

text \<open>
  C9: for references that resolve to registered nodes a and b, \<open>connect\<close> puts the
  connection into the set and a second \<open>connect\<close> with the same arguments changes
  nothing: the connection is there exactly once. A \<open>connect\<close> between the same nodes
  with other outlets adds a second connection, and both are there, once each.
\<close>

theorem connect_twice:
  assumes "wf_graph g" and "node g src = Inr a" and "node g tgt = Inr b"
  shows "\<exists>g1. connect g src tgt s_out t_out = (Inr (), g1) \<and>
           connect g1 src tgt s_out t_out = (Inr (), g1) \<and>
           count_list (connections g1)
             \<lparr>source = a, target = b, source_outlet = s_out, target_outlet = t_out\<rparr> = 1 \<and>
           ((s_out', t_out') \<noteq> (s_out, t_out) \<longrightarrow>
              (\<exists>g2. connect g1 src tgt s_out' t_out' = (Inr (), g2) \<and>
                 count_list (connections g2)
                   \<lparr>source = a, target = b, source_outlet = s_out, target_outlet = t_out\<rparr> = 1 \<and>
                 count_list (connections g2)
                   \<lparr>source = a, target = b, source_outlet = s_out', target_outlet = t_out'\<rparr> = 1))"
proof -
  from assms(1) have d: "distinct (connections g)" by (simp add: wf_graph_def)
  show ?thesis
    using assms(2,3) d
    by (auto simp: connect_def node_connections_update count_list_insert_same count_list_insert_other distinct_insert)
qed

theorem connect_twice_witness:
  "wf_graph pair_graph \<and>
   node pair_graph (Name ''a'') = Inr (Node 1) \<and>
   node pair_graph (Handle (Node 2)) = Inr (Node 2) \<and>
   (\<exists>g1. connect pair_graph (Name ''a'') (Handle (Node 2)) None None = (Inr (), g1) \<and>
      connect g1 (Name ''a'') (Handle (Node 2)) None None = (Inr (), g1) \<and>
      count_list (connections g1)
        \<lparr>source = Node 1, target = Node 2, source_outlet = None, target_outlet = None\<rparr> = 1 \<and>
      (\<exists>g2. connect g1 (Name ''a'') (Handle (Node 2)) (Some ''out'') None = (Inr (), g2) \<and>
         count_list (connections g2)
           \<lparr>source = Node 1, target = Node 2, source_outlet = None, target_outlet = None\<rparr> = 1 \<and>
         count_list (connections g2)
           \<lparr>source = Node 1, target = Node 2, source_outlet = Some ''out'',
             target_outlet = None\<rparr> = 1))"
proof -
  have w: "wf_graph pair_graph" by (simp add: wf_graph_def pair_graph_def)
  have a: "node pair_graph (Name ''a'') = Inr (Node 1)" by (simp add: node_def pair_graph_def)
  have b: "node pair_graph (Handle (Node 2)) = Inr (Node 2)"
    by (simp add: node_def pair_graph_def)
  from w a b connect_twice [OF w a b, of None None "Some ''out''" None]
  show ?thesis by simp
qed

subsection \<open>Claims about the sorter\<close>

text \<open>
  C10: an explicitly empty collection of nodes is treated as an omitted argument. The
  call returns what the call without an argument returns: on a well-formed acyclic graph
  a permutation of all registered nodes (so not the empty list, unless no node is
  registered) with every connection's source before its target, and on a graph with a
  cycle the exception with the connections left.
\<close>

theorem sorted_nodes_empty_subset:
  "sorted_nodes sched g (Some []) = sorted_nodes sched g None \<and>
   (wf_graph g \<longrightarrow> acyclic_graph g \<longrightarrow>
      (\<exists>L. sorted_nodes sched g (Some []) = (Inr L, g) \<and>
         mset L = mset (map snd (nodes g)) \<and>
         (\<forall>c \<in> set (connections g).
            index_of L (source c) < index_of L (target c) \<and>
            index_of L (target c) < length L))) \<and>
   (\<not> acyclic_graph g \<longrightarrow>
      (\<exists>k. 0 < k \<and>
         sorted_nodes sched g (Some []) =
           (Inl (CycleException k (length (connections g))), g)))"
proof -
  have eq: "sorted_nodes sched g (Some []) = sorted_nodes sched g None"
    by (simp add: sorted_nodes_def)
  have ok: "\<exists>L. sorted_nodes sched g (Some []) = (Inr L, g) \<and>
         mset L = mset (map snd (nodes g)) \<and>
         (\<forall>c \<in> set (connections g).
            index_of L (source c) < index_of L (target c) \<and>
            index_of L (target c) < length L)"
    if wf: "wf_graph g" and ac: "acyclic_graph g"
  proof -
    from wf ac obtain L where run: "sorted_nodes sched g None = (Inr L, g)"
      and dL: "distinct L" and sL: "set L = set (map snd (nodes g))"
      and ord: "\<forall>c \<in> set (connections g). index_of L (source c) < index_of L (target c)"
      using sorted_nodes_all_acyclic by blast
    from wf have dv: "distinct (map snd (nodes g))"
      and tg: "\<forall>c \<in> set (connections g). target c \<in> set (map snd (nodes g))"
      by (simp_all add: wf_graph_def)
    from dL dv sL have "mset L = mset (map snd (nodes g))"
      by (metis set_eq_iff_mset_eq_distinct)
    moreover have "\<forall>c \<in> set (connections g). index_of L (target c) < length L"
      using tg sL by (simp add: index_of_less)
    ultimately show ?thesis using run ord eq by auto
  qed
  have bad: "\<exists>k. 0 < k \<and> sorted_nodes sched g (Some []) =
               (Inl (CycleException k (length (connections g))), g)"
    if "\<not> acyclic_graph g"
  proof -
    from sorted_nodes_cyclic [OF that, of sched]
    have "0 < length (residual sched g)"
      and "sorted_nodes sched g None =
        (Inl (CycleException (length (residual sched g)) (length (connections g))), g)"
      by auto
    with eq show ?thesis by auto
  qed
  from eq ok bad show ?thesis by blast
qed

theorem sorted_nodes_empty_subset_witness:
  "wf_graph chain_graph \<and> acyclic_graph chain_graph \<and>
   sorted_nodes [] chain_graph (Some []) = (Inr [Node 1, Node 2, Node 3], chain_graph) \<and>
   mset [Node 1, Node 2, Node 3] = mset (map snd (nodes chain_graph)) \<and>
   \<not> acyclic_graph cycle_graph \<and>
   (\<exists>k. 0 < k \<and> sorted_nodes [] cycle_graph (Some []) =
           (Inl (CycleException k (length (connections cycle_graph))), cycle_graph))"
proof -
  have w: "wf_graph chain_graph" by (simp add: wf_graph_def chain_graph_def)
  have a: "acyclic_graph chain_graph" by (rule node_rank_chain)
  have c: "\<not> acyclic_graph cycle_graph" by (rule two_cycle)
  have e: "sorted_nodes [] chain_graph None = (Inr [Node 1, Node 2, Node 3], chain_graph)"
    by code_simp
  from sorted_nodes_empty_subset [of "[]" chain_graph] w a
  obtain L where "sorted_nodes [] chain_graph (Some []) = (Inr L, chain_graph)"
    and "mset L = mset (map snd (nodes chain_graph))"
    and "sorted_nodes [] chain_graph (Some []) = sorted_nodes [] chain_graph None"
    by blast
  with e have 1: "sorted_nodes [] chain_graph (Some []) =
                    (Inr [Node 1, Node 2, Node 3], chain_graph)"
    and 2: "mset [Node 1, Node 2, Node 3] = mset (map snd (nodes chain_graph))"
    by auto
  from sorted_nodes_empty_subset [of "[]" cycle_graph] c
  have 3: "\<exists>k. 0 < k \<and> sorted_nodes [] cycle_graph (Some []) =
           (Inl (CycleException k (length (connections cycle_graph))), cycle_graph)"
    by blast
  from w a 1 2 c 3 show ?thesis by blast
qed

text \<open>
  C1: for every well-formed graph whose connections are acyclic and every order in which
  the frontier set pops its elements, \<open>sorted_nodes()\<close> returns a list that is a
  permutation of the registered nodes, and every connection has its source at an
  earlier index of the list than its target.
\<close>

theorem sorted_nodes_topological:
  assumes "wf_graph g" and "acyclic_graph g"
  shows "\<exists>L. sorted_nodes sched g None = (Inr L, g) \<and>
           mset L = mset (map snd (nodes g)) \<and>
           (\<forall>c \<in> set (connections g).
              index_of L (source c) < index_of L (target c) \<and>
              index_of L (target c) < length L)"
proof -
  from assms obtain L where run: "sorted_nodes sched g None = (Inr L, g)"
    and dL: "distinct L" and sL: "set L = set (map snd (nodes g))"
    and ord: "\<forall>c \<in> set (connections g). index_of L (source c) < index_of L (target c)"
    using sorted_nodes_all_acyclic by blast
  from assms(1) have dv: "distinct (map snd (nodes g))"
    and tg: "\<forall>c \<in> set (connections g). target c \<in> set (map snd (nodes g))"
    by (simp_all add: wf_graph_def)
  from dL dv sL have "mset L = mset (map snd (nodes g))"
    by (metis set_eq_iff_mset_eq_distinct)
  moreover have "\<forall>c \<in> set (connections g). index_of L (target c) < length L"
    using tg sL by (simp add: index_of_less)
  ultimately show ?thesis using run ord by blast
qed

theorem sorted_nodes_topological_witness:
  "wf_graph chain_graph \<and> acyclic_graph chain_graph \<and>
   (\<exists>L. sorted_nodes [] chain_graph None = (Inr L, chain_graph) \<and>
      mset L = mset (map snd (nodes chain_graph)) \<and>
      (\<forall>c \<in> set (connections chain_graph).
         index_of L (source c) < index_of L (target c) \<and>
         index_of L (target c) < length L))"
proof -
  have w: "wf_graph chain_graph" by (simp add: wf_graph_def chain_graph_def)
  have a: "acyclic_graph chain_graph" by (rule node_rank_chain)
  from w a sorted_nodes_topological [OF w a, of "[]"] show ?thesis by blast
qed

text \<open>
  C3: for every graph whose connections contain a cycle and every order in which the
  frontier set pops its elements, \<open>sorted_nodes()\<close> raises the exception with the
  number of connections left, at least one and at most all, and with the number of
  connections of the graph. On a well-formed graph the number left is the number of
  unresolved connections, those that start at a node on a cycle or reached from one.
  \<open>sorted_nodes\<close>, with any argument, returns the graph unchanged. For nodes a and b
  with connections a\<rightarrow>b and b\<rightarrow>a the exception reports 2 left of 2; with a third node
  t and a connection t\<rightarrow>a it reports 2 left of 3.
\<close>

theorem sorted_nodes_cycle:
  assumes "\<not> acyclic_graph g"
  shows "\<exists>k. 0 < k \<and> k \<le> length (connections g) \<and>
           sorted_nodes sched g None =
             (Inl (CycleException k (length (connections g))), g) \<and>
           (wf_graph g \<longrightarrow> k = length (unresolved g)) \<and>
           snd (sorted_nodes sched' g nodes_arg) = g"
proof -
  from sorted_nodes_cyclic [OF assms, of sched]
  have ne: "residual sched g \<noteq> []"
    and le: "length (residual sched g) \<le> length (connections g)"
    and r: "sorted_nodes sched g None =
              (Inl (CycleException (length (residual sched g)) (length (connections g))), g)"
    by blast+
  have u: "wf_graph g \<longrightarrow> length (residual sched g) = length (unresolved g)"
    by (simp add: residual_unresolved)
  have same: "snd (sorted_nodes sched' g nodes_arg) = g" by (rule wf_sorted_nodes)
  from ne have "0 < length (residual sched g)" by simp
  with le r u same show ?thesis by blast
qed

theorem sorted_nodes_cycle_witness:
  "\<not> acyclic_graph tail_cycle_graph \<and> wf_graph tail_cycle_graph \<and>
   length (unresolved tail_cycle_graph) = 2 \<and>
   sorted_nodes [] tail_cycle_graph None = (Inl (CycleException 2 3), tail_cycle_graph) \<and>
   \<not> acyclic_graph cycle_graph \<and> wf_graph cycle_graph \<and>
   sorted_nodes [] cycle_graph None = (Inl (CycleException 2 2), cycle_graph)"
proof -
  have "(Node 1, Node 1) \<in> (edges (connections tail_cycle_graph))\<^sup>+"
    by (rule trancl_into_trancl [where b = "Node 2"], rule r_into_trancl)
       (simp_all add: edges_def tail_cycle_graph_def)
  then have c1: "\<not> acyclic_graph tail_cycle_graph"
    by (auto simp: acyclic_graph_def acyclic_def)
  have w1: "wf_graph tail_cycle_graph" by (simp add: wf_graph_def tail_cycle_graph_def)
  have u1: "length (unresolved tail_cycle_graph) = 2" by code_simp
  have n1: "length (connections tail_cycle_graph) = 3" by (simp add: tail_cycle_graph_def)
  have c2: "\<not> acyclic_graph cycle_graph" by (rule two_cycle)
  have w2: "wf_graph cycle_graph" by (simp add: wf_graph_def cycle_graph_def)
  have u2: "length (unresolved cycle_graph) = 2" by code_simp
  have n2: "length (connections cycle_graph) = 2" by (simp add: cycle_graph_def)
  from sorted_nodes_cycle [OF c1, of "[]"] w1 u1 n1
  have r1: "sorted_nodes [] tail_cycle_graph None =
              (Inl (CycleException 2 3), tail_cycle_graph)" by auto
  from sorted_nodes_cycle [OF c2, of "[]"] w2 u2 n2
  have r2: "sorted_nodes [] cycle_graph None = (Inl (CycleException 2 2), cycle_graph)"
    by auto
  from c1 w1 u1 r1 c2 w2 r2 show ?thesis by blast
qed

text \<open>
  C2, as the code has it: when \<open>sorted_nodes\<close> succeeds on a non-empty collection of
  nodes, the list it returns has no repetition and holds the given nodes together with
  every node that is the target of a connection of the graph, inside the collection or
  not; every connection of the graph has its source in the list, before its target; and
  the initial frontier consists of the given nodes that no connection of the whole
  graph reaches.
\<close>

theorem sorted_nodes_subset:
  assumes "ns \<noteq> []" and "sorted_nodes sched g (Some ns) = (Inr L, g')"
  shows "g' = g \<and> distinct L \<and>
         set L = set ns \<union> target ` set (connections g) \<and>
         (\<forall>c \<in> set (connections g).
            source c \<in> set L \<and> index_of L (source c) < index_of L (target c)) \<and>
         set (source_nodes ns (connections g)) =
           {n \<in> set ns. \<forall>c \<in> set (connections g). target c \<noteq> n}"
proof -
  let ?E = "connections g"
  obtain cs' L' where run: "sort_loop sched ?E (source_nodes ns ?E) [] = (cs', L')"
    by (cases "sort_loop sched ?E (source_nodes ns ?E) []")
  then have inv: "sort_inv ?E (set ns) cs' [] L'" by (rule sorted_nodes_result)
  from assms run have e: "cs' = []" and L: "L' = L" and g: "g' = g"
    by (auto simp: sorted_nodes_def split: if_splits)
  from inv have inv0: "sort_inv ?E (set ns) [] [] L" by (simp only: e L)
  have "source c \<in> set L" if "c \<in> set ?E" for c
    using finished_all_sorted(2) [OF inv0] that by blast
  moreover have "set (source_nodes ns ?E) = {n \<in> set ns. \<forall>c \<in> set ?E. target c \<noteq> n}"
    by (auto simp: source_nodes_def is_source_iff)
  moreover note finished_all_sorted(1,3,4) [OF inv0] g
  ultimately show ?thesis by blast
qed

theorem sorted_nodes_subset_witness:
  "[Node 1] \<noteq> [] \<and>
   sorted_nodes [] edge_graph (Some [Node 1]) = (Inr [Node 1, Node 2], edge_graph) \<and>
   set [Node 1, Node 2] = set [Node 1] \<union> target ` set (connections edge_graph)"
proof -
  have r: "sorted_nodes [] edge_graph (Some [Node 1]) = (Inr [Node 1, Node 2], edge_graph)"
    by code_simp
  have n: "[Node 1] \<noteq> []" by simp
  from sorted_nodes_subset [OF n r] r show ?thesis by simp
qed

text \<open>
  The list need not consist of the members of the given collection only: in the graph
  with the connection a\<rightarrow>b, sorting the collection that holds a alone returns a and b.
\<close>

theorem sorted_nodes_subset_counterexample:
  "sorted_nodes [] edge_graph (Some [Node 1]) = (Inr [Node 1, Node 2], edge_graph) \<and>
   set [Node 1, Node 2] \<noteq> set [Node 1]"
  by (simp add: sorted_nodes_def edge_graph_def source_nodes_def sort_loop.simps pop_def
        source_connections_def is_source_def Let_def)




end
